theory Spec2Isabelle
  imports Main "HOL-Library.Product_Lexorder"
begin

section \<open>Paths (posixpath, as the program uses it)\<close>

type_synonym path = string

definition isabs :: "path \<Rightarrow> bool" where
  "isabs p = (case p of [] \<Rightarrow> False | c # _ \<Rightarrow> c = CHR ''/'')"

text \<open>\<open>os.path.basename\<close>: everything after the last slash.\<close>

definition basename :: "path \<Rightarrow> string" where
  "basename p = rev (takeWhile (\<lambda>c. c \<noteq> CHR ''/'') (rev p))"

text \<open>\<open>os.path.dirname\<close>: everything up to the last slash, trailing slashes stripped
  unless the head consists of slashes only.\<close>

definition dirname :: "path \<Rightarrow> path" where
  "dirname p =
     (let head = rev (dropWhile (\<lambda>c. c \<noteq> CHR ''/'') (rev p))
      in if head \<noteq> [] \<and> (\<exists>c \<in> set head. c \<noteq> CHR ''/'')
         then rev (dropWhile (\<lambda>c. c = CHR ''/'') (rev head)) else head)"

definition join :: "path \<Rightarrow> path \<Rightarrow> path" where
  "join a b =
     (if isabs b then b
      else if a = [] \<or> last a = CHR ''/'' then a @ b
      else a @ ''/'' @ b)"

fun split_slash :: "string \<Rightarrow> string list" where
  "split_slash [] = [[]]"
| "split_slash (c # cs) =
     (if c = CHR ''/'' then [] # split_slash cs
      else (case split_slash cs of [] \<Rightarrow> [[c]] | x # xs \<Rightarrow> (c # x) # xs))"

fun join_slash :: "string list \<Rightarrow> string" where
  "join_slash [] = []"
| "join_slash [x] = x"
| "join_slash (x # y # ys) = x @ ''/'' @ join_slash (y # ys)"

text \<open>\<open>os.path.normpath\<close>: the loop body over the components, then the function.\<close>

definition norm_step :: "nat \<Rightarrow> string \<Rightarrow> string list \<Rightarrow> string list" where
  "norm_step initial_slashes part new_comps =
     (if part = [] \<or> part = ''.'' then new_comps
      else if part \<noteq> ''..'' \<or> (initial_slashes = 0 \<and> new_comps = [])
              \<or> (new_comps \<noteq> [] \<and> last new_comps = ''..'')
           then new_comps @ [part]
      else if new_comps \<noteq> [] then butlast new_comps
      else new_comps)"

definition normpath :: "path \<Rightarrow> path" where
  "normpath p =
     (if p = [] then ''.''
      else
        let initial_slashes =
              (if isabs p
               then (if take 2 p = ''//'' \<and> take 3 p \<noteq> ''///'' then 2 else 1)
               else (0::nat));
            comps = fold (norm_step initial_slashes) (split_slash p) [];
            q = replicate initial_slashes (CHR ''/'') @ join_slash comps
        in if q = [] then ''.'' else q)"

definition abspath :: "path \<Rightarrow> path \<Rightarrow> path" where
  "abspath cwd p = normpath (if isabs p then p else join cwd p)"

fun commonprefix_len :: "'a list \<Rightarrow> 'a list \<Rightarrow> nat" where
  "commonprefix_len (x # xs) (y # ys) = (if x = y then Suc (commonprefix_len xs ys) else 0)"
| "commonprefix_len _ _ = 0"

fun join_all :: "path list \<Rightarrow> path" where
  "join_all [] = []"
| "join_all (x # xs) = fold (\<lambda>b a. join a b) xs x"

text \<open>\<open>os.path.relpath(path, start)\<close>; \<open>None\<close> stands for the \<open>ValueError\<close> it raises
  on an empty \<open>path\<close>.\<close>

definition relpath :: "path \<Rightarrow> path \<Rightarrow> path \<Rightarrow> path option" where
  "relpath cwd p start =
     (if p = [] then None
      else
        let start_list = filter (\<lambda>x. x \<noteq> []) (split_slash (abspath cwd start));
            path_list = filter (\<lambda>x. x \<noteq> []) (split_slash (abspath cwd p));
            i = commonprefix_len start_list path_list;
            rel_list = replicate (length start_list - i) ''..'' @ drop i path_list
        in if rel_list = [] then Some ''.'' else Some (join_all rel_list))"

section \<open>The file system the program runs against\<close>

datatype exn = OSError | IOError | ValueError | IndexError

datatype 'a result = Ok 'a | Raise exn

record inode_data =
  ino :: nat
  content :: string
  readable :: bool

datatype node = Regular inode_data | Symlink path

text \<open>Calls observed by an instrumentation hook, in order: every digest computation,
  every list of files handed to \<open>_link_files\<close>, and every mutating file-system call the
  program issues, whether or not the call succeeds.\<close>

datatype event =
    Hashed path
  | Handed "path list"
  | CallUnlink path
  | CallLink path path
  | CallSymlink path path
  | CallCopy path path

fun target :: "event \<Rightarrow> path option" where
  "target (Hashed p) = None"
| "target (Handed files) = None"
| "target (CallUnlink p) = Some p"
| "target (CallLink src dst) = Some dst"
| "target (CallSymlink src dst) = Some dst"
| "target (CallCopy src dst) = Some dst"

text \<open>
  What no call of the program changes: the order in which \<open>os.walk\<close> meets the entry
  names (\<open>entries\<close>); the directories (\<open>is_dir\<close>); the working directory; which calls
  the operating system refuses (permissions, devices, file systems without links); and
  the two library functions \<open>hashlib.sha1\<close> and \<open>fnmatch.fnmatch\<close>.
\<close>

record env =
  entries :: "path list"
  is_dir :: "path \<Rightarrow> bool"
  cwd :: path
  unlink_fails :: "path \<Rightarrow> bool"
  link_fails :: "path \<Rightarrow> path \<Rightarrow> bool"
  symlink_fails :: "path \<Rightarrow> bool"
  copy_fails :: "path \<Rightarrow> bool"
  sha1 :: "string \<Rightarrow> string"
  fnmatch :: "string \<Rightarrow> string \<Rightarrow> bool"

text \<open>
  The world: the environment; the directory entries that are not directories, keyed by
  the path string the program passes to the \<open>os\<close> calls (\<open>nodes\<close>); the next free inode
  number; and the calls observed so far. An inode's bytes are kept in the directory
  entry: the program never writes into an existing file, so hard links cannot be told
  from copies except by \<open>ino\<close>.
\<close>

record world =
  env :: env
  nodes :: "path \<Rightarrow> node option"
  next_ino :: nat
  trace :: "event list"

text \<open>\<open>os.stat\<close>: follows symbolic links, a relative link text being read from the
  directory of the link; at most 40 links are followed.\<close>

fun stat_fuel :: "nat \<Rightarrow> world \<Rightarrow> path \<Rightarrow> inode_data option" where
  "stat_fuel 0 w p =
     (case nodes w p of Some (Regular d) \<Rightarrow> Some d | _ \<Rightarrow> None)"
| "stat_fuel (Suc n) w p =
     (case nodes w p of
        None \<Rightarrow> None
      | Some (Regular d) \<Rightarrow> Some d
      | Some (Symlink t) \<Rightarrow> stat_fuel n w (normpath (join (dirname p) t)))"

definition os_stat :: "world \<Rightarrow> path \<Rightarrow> inode_data option" where
  "os_stat w p = stat_fuel 40 w p"

definition isfile :: "world \<Rightarrow> path \<Rightarrow> bool" where
  "isfile w p = (os_stat w p \<noteq> None)"

definition islink :: "world \<Rightarrow> path \<Rightarrow> bool" where
  "islink w p = (case nodes w p of Some (Symlink t) \<Rightarrow> True | _ \<Rightarrow> False)"

definition getsize :: "world \<Rightarrow> path \<Rightarrow> nat result" where
  "getsize w p =
     (case os_stat w p of None \<Rightarrow> Raise OSError | Some d \<Rightarrow> Ok (length (content d)))"

definition samefile :: "world \<Rightarrow> path \<Rightarrow> path \<Rightarrow> bool result" where
  "samefile w a b =
     (case os_stat w a of
        None \<Rightarrow> Raise OSError
      | Some x \<Rightarrow> (case os_stat w b of
                    None \<Rightarrow> Raise OSError
                  | Some y \<Rightarrow> Ok (ino x = ino y)))"

definition record_call :: "event \<Rightarrow> world \<Rightarrow> world" where
  "record_call e w = w\<lparr>trace := trace w @ [e]\<rparr>"

definition os_unlink :: "path \<Rightarrow> world \<Rightarrow> unit result \<times> world" where
  "os_unlink p w =
     (if nodes w p = None \<or> unlink_fails (env w) p then (Raise OSError, record_call (CallUnlink p) w)
      else (Ok (), record_call (CallUnlink p) (w\<lparr>nodes := (nodes w)(p := None)\<rparr>)))"

text \<open>\<open>os.link\<close> makes \<open>dst\<close> a second name of the entry \<open>src\<close>.\<close>

definition os_link :: "path \<Rightarrow> path \<Rightarrow> world \<Rightarrow> unit result \<times> world" where
  "os_link src dst w =
     (if nodes w src = None \<or> nodes w dst \<noteq> None \<or> link_fails (env w) src dst
      then (Raise OSError, record_call (CallLink src dst) w)
      else (Ok (), record_call (CallLink src dst) (w\<lparr>nodes := (nodes w)(dst := nodes w src)\<rparr>)))"

definition os_symlink :: "path \<Rightarrow> path \<Rightarrow> world \<Rightarrow> unit result \<times> world" where
  "os_symlink src dst w =
     (if nodes w dst \<noteq> None \<or> symlink_fails (env w) dst
      then (Raise OSError, record_call (CallSymlink src dst) w)
      else (Ok (), record_call (CallSymlink src dst) (w\<lparr>nodes := (nodes w)(dst \<mapsto> Symlink src)\<rparr>)))"

text \<open>\<open>shutil.copy2\<close> onto a path that has no entry (the program calls it only right
  after it unlinked that path): a new file, with a new inode, holding the bytes and the
  mode of the source. Onto an existing entry it is refused here.\<close>

definition shutil_copy2 :: "path \<Rightarrow> path \<Rightarrow> world \<Rightarrow> unit result \<times> world" where
  "shutil_copy2 src dst w =
     (case os_stat w src of
        None \<Rightarrow> (Raise IOError, record_call (CallCopy src dst) w)
      | Some d \<Rightarrow>
          if \<not> readable d \<or> nodes w dst \<noteq> None \<or> copy_fails (env w) dst
          then (Raise IOError, record_call (CallCopy src dst) w)
          else (Ok (), record_call (CallCopy src dst)
                  (w\<lparr>nodes := (nodes w)(dst \<mapsto> Regular (d\<lparr>ino := next_ino w\<rparr>)),
                     next_ino := Suc (next_ino w)\<rparr>)))"

text \<open>\<open>os.walk(root_dir)\<close> joined with the file names: the entries below the root.\<close>

definition in_tree :: "path \<Rightarrow> path \<Rightarrow> bool" where
  "in_tree root p =
     (let pre = (if root \<noteq> [] \<and> last root = CHR ''/'' then root else root @ ''/'')
      in length pre < length p \<and> take (length pre) p = pre)"

definition os_walk :: "world \<Rightarrow> path \<Rightarrow> path list" where
  "os_walk w root = filter (\<lambda>p. in_tree root p \<and> nodes w p \<noteq> None) (entries (env w))"

section \<open>linksame.py\<close>

text \<open>
  The \<open>print\<close> calls of the program, and the parameters \<open>quiet\<close>, \<open>silent\<close> and (inside
  \<open>_link_files\<close>) \<open>root_dir\<close> that only they read, are left out; a function that prints
  a summary returns the numbers it prints. Worker threads are run one after the other,
  in the order they are started: each works on the files of its own size bucket only.
  Dictionaries are association lists in insertion order.
\<close>

type_synonym stats = "nat \<times> nat"

definition fkey :: "path \<Rightarrow> nat \<times> nat" where
  "fkey name = (length (basename name), length name)"

text \<open>Lines 246 to 254: the text of the symbolic link.\<close>

definition link_source :: "world \<Rightarrow> bool \<Rightarrow> path \<Rightarrow> path \<Rightarrow> path result" where
  "link_source w absolute base_file f =
     (if absolute then Ok base_file
      else (case relpath (cwd (env w)) (dirname f) (dirname base_file) of
              None \<Rightarrow> Raise ValueError
            | Some rp \<Rightarrow>
                Ok (if rp = ''.'' then basename base_file
                    else join rp (basename base_file))))"

text \<open>The body of the loop of \<open>_link_files\<close> for one file \<open>f\<close>; the state is
  \<open>(link_count, size_saved)\<close> and the world. The operating-system calls raise \<open>OSError\<close>
  only, which the \<open>except OSError\<close> clauses catch.\<close>

definition link_one ::
  "bool \<Rightarrow> bool \<Rightarrow> bool \<Rightarrow> path \<Rightarrow> nat \<Rightarrow> path \<Rightarrow> stats \<Rightarrow> world \<Rightarrow> stats result \<times> world" where
  "link_one link symlink absolute base_file base_size f st w =
     (case samefile w base_file f of
        Raise e \<Rightarrow> (Raise e, w)
      | Ok True \<Rightarrow> (Ok st, w)
      | Ok False \<Rightarrow>
          if \<not> link then (Ok (fst st + 1, snd st + base_size), w)
          else
            (case os_unlink f w of
               (Raise e, w1) \<Rightarrow> (Ok st, w1)
             | (Ok u, w1) \<Rightarrow>
                 (case (if symlink then (True, w1)
                        else (case os_link base_file f w1 of
                                (Ok u, w2) \<Rightarrow> (False, w2)
                              | (Raise e, w2) \<Rightarrow> (True, w2))) of
                    (False, w2) \<Rightarrow> (Ok (fst st + 1, snd st + base_size), w2)
                  | (True, w2) \<Rightarrow>
                      (case link_source w2 absolute base_file f of
                         Raise e \<Rightarrow> (Raise e, w2)
                       | Ok source \<Rightarrow>
                           (case os_symlink source f w2 of
                              (Ok u, w3) \<Rightarrow> (Ok (fst st + 1, snd st + base_size), w3)
                            | (Raise e, w3) \<Rightarrow>
                                (case shutil_copy2 base_file f w3 of
                                   (Raise e', w4) \<Rightarrow> (Raise e', w4)
                                 | (Ok u, w4) \<Rightarrow> (Ok st, w4)))))))"

fun link_loop ::
  "bool \<Rightarrow> bool \<Rightarrow> bool \<Rightarrow> path \<Rightarrow> nat \<Rightarrow> path list \<Rightarrow> stats \<Rightarrow> world \<Rightarrow> stats result \<times> world" where
  "link_loop link symlink absolute base_file base_size [] st w = (Ok st, w)"
| "link_loop link symlink absolute base_file base_size (f # fs) st w =
     (case link_one link symlink absolute base_file base_size f st w of
        (Raise e, w1) \<Rightarrow> (Raise e, w1)
      | (Ok st1, w1) \<Rightarrow> link_loop link symlink absolute base_file base_size fs st1 w1)"

text \<open>\<open>files.sort(key=fkey)\<close> is a stable sort, as \<open>sort_key\<close> is; \<open>files.pop()\<close> takes
  the last element.\<close>

definition base_file_of :: "path list \<Rightarrow> path" where
  "base_file_of files = last (sort_key fkey files)"

definition replaced_of :: "path list \<Rightarrow> path list" where
  "replaced_of files = butlast (sort_key fkey files)"

definition link_files ::
  "path list \<Rightarrow> bool \<Rightarrow> bool \<Rightarrow> bool \<Rightarrow> world \<Rightarrow> stats result \<times> world" where
  "link_files files link symlink absolute w0 =
     (let w = record_call (Handed files) w0 in
      if files = [] then (Raise IndexError, w)
      else
        (case getsize w (base_file_of files) of
           Raise e \<Rightarrow> (Raise e, w)
         | Ok base_size \<Rightarrow>
             link_loop link symlink absolute (base_file_of files) base_size
               (replaced_of files) (0, 0) w))"

definition hash_file :: "path \<Rightarrow> world \<Rightarrow> string result \<times> world" where
  "hash_file filename w =
     (case os_stat w filename of
        None \<Rightarrow> (Raise IOError, record_call (Hashed filename) w)
      | Some d \<Rightarrow>
          if readable d then (Ok (sha1 (env w) (content d)), record_call (Hashed filename) w)
          else (Raise IOError, record_call (Hashed filename) w))"

text \<open>\<open>m.setdefault(k, []).append(v)\<close>\<close>

fun setdefault_append :: "'k \<Rightarrow> 'v \<Rightarrow> ('k \<times> 'v list) list \<Rightarrow> ('k \<times> 'v list) list" where
  "setdefault_append k v [] = [(k, [v])]"
| "setdefault_append k v ((k', vs) # m) =
     (if k = k' then (k', vs @ [v]) # m else (k', vs) # setdefault_append k v m)"

fun hash_all ::
  "path list \<Rightarrow> (string \<times> path list) list \<Rightarrow> world \<Rightarrow> (string \<times> path list) list result \<times> world" where
  "hash_all [] m w = (Ok m, w)"
| "hash_all (fpath # rest) m w =
     (case hash_file fpath w of
        (Raise e, w1) \<Rightarrow> (Raise e, w1)
      | (Ok h, w1) \<Rightarrow> hash_all rest (setdefault_append h fpath m) w1)"

definition check_same :: "path list \<Rightarrow> world \<Rightarrow> path list list result \<times> world" where
  "check_same filepaths w =
     (case hash_all filepaths [] w of
        (Raise e, w1) \<Rightarrow> (Raise e, w1)
      | (Ok m, w1) \<Rightarrow> (Ok (filter (\<lambda>files. length files > 1) (map snd m)), w1))"

fun link_lists ::
  "bool \<Rightarrow> bool \<Rightarrow> bool \<Rightarrow> path list list \<Rightarrow> stats \<Rightarrow> world \<Rightarrow> stats result \<times> world" where
  "link_lists link symlink absolute [] st w = (Ok st, w)"
| "link_lists link symlink absolute (files # rest) st w =
     (case link_files files link symlink absolute w of
        (Raise e, w1) \<Rightarrow> (Raise e, w1)
      | (Ok ls, w1) \<Rightarrow>
          link_lists link symlink absolute rest (fst st + fst ls, snd st + snd ls) w1)"

text \<open>The worker thread. \<open>Some\<close> is the pair it puts on \<open>statsq\<close>; \<open>None\<close> is a thread
  that an uncaught exception ended before the \<open>put\<close>.\<close>

definition check_and_link ::
  "bool \<Rightarrow> bool \<Rightarrow> bool \<Rightarrow> path list \<Rightarrow> world \<Rightarrow> stats option \<times> world" where
  "check_and_link link symlink absolute filepaths w =
     (case check_same filepaths w of
        (Raise e, w1) \<Rightarrow> (None, w1)
      | (Ok sameLists, w1) \<Rightarrow>
          (case link_lists link symlink absolute sameLists (0, 0) w1 of
             (Raise e, w2) \<Rightarrow> (None, w2)
           | (Ok st, w2) \<Rightarrow> (Some st, w2)))"

definition pattern_excludes :: "world \<Rightarrow> string option \<Rightarrow> string \<Rightarrow> bool" where
  "pattern_excludes w pattern fname =
     (case pattern of None \<Rightarrow> False | Some pat \<Rightarrow> pat \<noteq> [] \<and> \<not> fnmatch (env w) fname pat)"

text \<open>Lines 72 to 82, for one path \<open>fpath = os.path.join(dirpath, fname)\<close>.\<close>

definition scan_step ::
  "world \<Rightarrow> string option \<Rightarrow> path \<Rightarrow> (nat \<times> path list) list \<Rightarrow> (nat \<times> path list) list result" where
  "scan_step w pattern fpath m =
     (if \<not> isfile w fpath \<or> islink w fpath then Ok m
      else (case getsize w fpath of
              Raise e \<Rightarrow> Raise e
            | Ok fsize \<Rightarrow>
                if fsize = 0 then Ok m
                else if pattern_excludes w pattern (basename fpath) then Ok m
                else Ok (setdefault_append fsize fpath m)))"

fun scan_loop ::
  "world \<Rightarrow> string option \<Rightarrow> path list \<Rightarrow> (nat \<times> path list) list \<Rightarrow> (nat \<times> path list) list result" where
  "scan_loop w pattern [] m = Ok m"
| "scan_loop w pattern (fpath # rest) m =
     (case scan_step w pattern fpath m of
        Raise e \<Rightarrow> Raise e
      | Ok m1 \<Rightarrow> scan_loop w pattern rest m1)"

text \<open>Lines 97 to 104: the state is \<open>wait_count\<close>, the contents of \<open>statsq\<close> and the
  world.\<close>

fun start_workers ::
  "bool \<Rightarrow> bool \<Rightarrow> bool \<Rightarrow> path list list \<Rightarrow> nat \<times> stats list \<times> world \<Rightarrow> nat \<times> stats list \<times> world" where
  "start_workers link symlink absolute [] s = s"
| "start_workers link symlink absolute (same_size_files # rest) (wait_count, statsq, w) =
     (if length same_size_files < 2
      then start_workers link symlink absolute rest (wait_count, statsq, w)
      else (case check_and_link link symlink absolute same_size_files w of
              (None, w1) \<Rightarrow>
                start_workers link symlink absolute rest (Suc wait_count, statsq, w1)
            | (Some st, w1) \<Rightarrow>
                start_workers link symlink absolute rest (Suc wait_count, statsq @ [st], w1)))"

text \<open>Lines 106 to 112. \<open>statsq.get()\<close> on a queue that no thread will fill again never
  returns: \<open>None\<close>.\<close>

fun collect :: "nat \<Rightarrow> stats list \<Rightarrow> stats \<Rightarrow> stats option" where
  "collect 0 statsq st = Some st"
| "collect (Suc wait_count) [] st = None"
| "collect (Suc wait_count) (ls # statsq) st =
     collect wait_count statsq (fst st + fst ls, snd st + snd ls)"

datatype outcome =
    Failed string
  | Completed nat nat
  | Uncaught exn
  | Blocked

text \<open>\<open>Failed err\<close>: the function returned the message \<open>err\<close>. \<open>Completed n b\<close>: it
  returned \<open>None\<close> with the summary "Replaced \<open>n\<close> files with links", "Reduced storage by
  \<open>b\<close>". \<open>root_dir\<close> is the argument after \<open>os.path.expanduser\<close>.\<close>

definition link_same_files ::
  "path \<Rightarrow> string option \<Rightarrow> bool \<Rightarrow> bool \<Rightarrow> bool \<Rightarrow> world \<Rightarrow> outcome \<times> world" where
  "link_same_files root_dir pattern link symlink absolute w =
     (let root = normpath root_dir in
      if \<not> is_dir (env w) root then (Failed (root @ '' is not a directory''), w)
      else
        (case scan_loop w pattern (os_walk w root) [] of
           Raise e \<Rightarrow> (Uncaught e, w)
         | Ok size_file_map \<Rightarrow>
             (case start_workers link symlink absolute (map snd size_file_map) (0, [], w) of
                (wait_count, statsq, w1) \<Rightarrow>
                  (case collect wait_count statsq (0, 0) of
                     None \<Rightarrow> (Blocked, w1)
                   | Some st \<Rightarrow> (Completed (fst st) (snd st), w1)))))"

text \<open>Lines 144 to 155 of \<open>link_same_update\<close>.\<close>

fun find_same ::
  "string option \<Rightarrow> nat \<Rightarrow> string \<Rightarrow> path list \<Rightarrow> path list \<Rightarrow> world \<Rightarrow> path list result \<times> world" where
  "find_same pattern update_size update_hash [] same w = (Ok same, w)"
| "find_same pattern update_size update_hash (fpath # rest) same w =
     (if \<not> isfile w fpath \<or> islink w fpath
      then find_same pattern update_size update_hash rest same w
      else (case getsize w fpath of
              Raise e \<Rightarrow> (Raise e, w)
            | Ok fsize \<Rightarrow>
                if fsize \<noteq> update_size
                then find_same pattern update_size update_hash rest same w
                else if pattern_excludes w pattern (basename fpath)
                then find_same pattern update_size update_hash rest same w
                else (case hash_file fpath w of
                        (Raise e, w1) \<Rightarrow> (Raise e, w1)
                      | (Ok h, w1) \<Rightarrow>
                          if h \<noteq> update_hash
                          then find_same pattern update_size update_hash rest same w1
                          else find_same pattern update_size update_hash rest
                                 (same @ [fpath]) w1)))"

definition link_same_update ::
  "path \<Rightarrow> path \<Rightarrow> string option \<Rightarrow> bool \<Rightarrow> bool \<Rightarrow> bool \<Rightarrow> world \<Rightarrow> outcome \<times> world" where
  "link_same_update update_file root_dir pattern link symlink absolute w =
     (if update_file = [] then (Failed ''Update file not specified'', w)
      else
        let root = normpath root_dir in
        if \<not> is_dir (env w) root then (Failed (root @ '' is not a directory''), w)
        else if \<not> isfile w update_file then (Failed (update_file @ '' is not a file''), w)
        else
          (case getsize w update_file of
             Raise e \<Rightarrow> (Uncaught e, w)
           | Ok update_size \<Rightarrow>
               if update_size = 0 then (Failed (update_file @ '' is empty''), w)
               else
                 (case hash_file update_file w of
                    (Raise e, w1) \<Rightarrow> (Uncaught e, w1)
                  | (Ok update_hash, w1) \<Rightarrow>
                      (case find_same pattern update_size update_hash (os_walk w1 root)
                              [update_file] w1 of
                         (Raise e, w2) \<Rightarrow> (Uncaught e, w2)
                       | (Ok same, w2) \<Rightarrow>
                           if length same > 1
                           then (case link_files same link symlink absolute w2 of
                                   (Raise e, w3) \<Rightarrow> (Uncaught e, w3)
                                 | (Ok st, w3) \<Rightarrow> (Completed (fst st) (snd st), w3))
                           else (Completed 0 0, w2)))))"

record args =
  arg_root :: "path option"
  arg_write :: bool
  arg_symlink :: bool
  arg_absolute :: bool
  arg_pattern :: "string option"
  arg_update :: "string option"

datatype exit = Exit nat "string list" | Traceback exn | Hang

text \<open>\<open>main\<close>: \<open>Exit c errs\<close> is a return with status \<open>c\<close> after writing the lines
  \<open>errs\<close> to the error stream; \<open>Traceback\<close> is an uncaught exception in the main thread;
  \<open>Hang\<close> is a main thread that never returns.\<close>

definition main :: "args \<Rightarrow> world \<Rightarrow> exit \<times> world" where
  "main a w =
     (let root = (case arg_root a of None \<Rightarrow> cwd (env w) | Some r \<Rightarrow> r) in
      (case (case arg_update a of
               None \<Rightarrow>
                 link_same_files root (arg_pattern a) (arg_write a) (arg_symlink a)
                   (arg_absolute a) w
             | Some u \<Rightarrow>
                 if u \<noteq> []
                 then link_same_update u root (arg_pattern a) (arg_write a) (arg_symlink a)
                        (arg_absolute a) w
                 else link_same_files root (arg_pattern a) (arg_write a) (arg_symlink a)
                        (arg_absolute a) w) of
         (Failed err, w1) \<Rightarrow> if err \<noteq> [] then (Exit 1 [err], w1) else (Exit 0 [], w1)
       | (Completed n b, w1) \<Rightarrow> (Exit 0 [], w1)
       | (Uncaught e, w1) \<Rightarrow> (Traceback e, w1)
       | (Blocked, w1) \<Rightarrow> (Hang, w1)))"

section \<open>Notions used in the statements\<close>

text \<open>
  \<open>advances P w w'\<close>: the world \<open>w'\<close> is \<open>w\<close> after some more observed calls, each of
  which satisfies \<open>P\<close>; the environment is the same, and a directory entry differs only
  where one of these calls had its target. The other notions name what the scanner and
  the hasher compute: the size and the digest of a path, the files the scanner keeps, and
  the grouping that repeated \<open>setdefault(..).append(..)\<close> builds.
\<close>

definition advances :: "(event \<Rightarrow> bool) \<Rightarrow> world \<Rightarrow> world \<Rightarrow> bool" where
  "advances P w w' \<longleftrightarrow>
     env w' = env w \<and> next_ino w \<le> next_ino w' \<and>
     (\<exists>evs. trace w' = trace w @ evs \<and> (\<forall>e \<in> set evs. P e) \<and>
        (\<forall>p. Some p \<notin> target ` set evs \<longrightarrow> nodes w' p = nodes w p))"

definition size_of :: "world \<Rightarrow> path \<Rightarrow> nat" where
  "size_of w p = (case os_stat w p of None \<Rightarrow> 0 | Some d \<Rightarrow> length (content d))"

definition digest_of :: "world \<Rightarrow> path \<Rightarrow> string" where
  "digest_of w p = (case os_stat w p of None \<Rightarrow> [] | Some d \<Rightarrow> sha1 (env w) (content d))"

definition eligible :: "world \<Rightarrow> string option \<Rightarrow> path \<Rightarrow> bool" where
  "eligible w pattern p \<longleftrightarrow>
     isfile w p \<and> \<not> islink w p \<and> size_of w p \<noteq> 0 \<and> \<not> pattern_excludes w pattern (basename p)"

definition candidates :: "world \<Rightarrow> path \<Rightarrow> string option \<Rightarrow> path list" where
  "candidates w root pattern = filter (eligible w pattern) (os_walk w root)"

fun group_by :: "('v \<Rightarrow> 'k) \<Rightarrow> 'v list \<Rightarrow> ('k \<times> 'v list) list \<Rightarrow> ('k \<times> 'v list) list" where
  "group_by g [] m = m"
| "group_by g (x # xs) m = group_by g xs (setdefault_append (g x) x m)"

definition grouped :: "('v \<Rightarrow> 'k) \<Rightarrow> 'v list \<Rightarrow> ('k \<times> 'v list) list \<Rightarrow> bool" where
  "grouped g ys m \<longleftrightarrow>
     distinct (map fst m) \<and> fst ` set m = g ` set ys \<and>
     (\<forall>(k, vs) \<in> set m. vs = filter (\<lambda>x. g x = k) ys)"

definition hashable :: "world \<Rightarrow> path \<Rightarrow> bool" where
  "hashable w p = (case os_stat w p of None \<Rightarrow> False | Some d \<Rightarrow> readable d)"

definition hash_groups :: "world \<Rightarrow> path list \<Rightarrow> path list list" where
  "hash_groups w fps =
     filter (\<lambda>files. 1 < length files) (map snd (group_by (digest_of w) fps []))"

text \<open>
  The scenario of the specification: under \<open>/r\<close>, the files \<open>a.txt\<close> and \<open>dir/c.txt\<close> hold
  "hello" and \<open>b.txt\<close> holds "world"; no call is refused; the digest of a content is the
  content itself; the pattern matches every name.
\<close>

definition reg :: "nat \<Rightarrow> string \<Rightarrow> node" where
  "reg i c = Regular \<lparr>ino = i, content = c, readable = True\<rparr>"

definition scenario_env :: env where
  "scenario_env =
     \<lparr>entries = [''/r/a.txt'', ''/r/b.txt'', ''/r/dir/c.txt''],
      is_dir = (\<lambda>p. p = ''/r''), cwd = ''/'',
      unlink_fails = (\<lambda>p. False), link_fails = (\<lambda>src dst. False),
      symlink_fails = (\<lambda>p. False), copy_fails = (\<lambda>p. False),
      sha1 = (\<lambda>c. c), fnmatch = (\<lambda>name pat. True)\<rparr>"

definition scenario_world :: world where
  "scenario_world =
     \<lparr>env = scenario_env,
      nodes = map_of [(''/r/a.txt'', reg 1 ''hello''), (''/r/b.txt'', reg 2 ''world''),
                      (''/r/dir/c.txt'', reg 3 ''hello'')],
      next_ino = 10, trace = []\<rparr>"

definition scenario_args :: args where
  "scenario_args =
     \<lparr>arg_root = Some ''/r'', arg_write = True, arg_symlink = False, arg_absolute = False,
      arg_pattern = None, arg_update = None\<rparr>"

section \<open>Survivor selection\<close>

lemma last_insort_key:
  "sorted (map f ys) \<Longrightarrow> ys \<noteq> [] \<Longrightarrow>
   last (insort_key f x ys) = (if f x \<le> f (last ys) then last ys else x)"
proof (induction ys)
  case Nil then show ?case by simp
next
  case (Cons y ys)
  show ?case
  proof (cases "ys = []")
    case True then show ?thesis by auto
  next
    case False
    then have m: "last ys \<in> set ys" by simp
    have yl: "f y \<le> f (last ys)" using Cons.prems(1) m by simp
    have ne: "insort_key f x ys \<noteq> []" by (cases ys) auto
    show ?thesis
    proof (cases "f x \<le> f y")
      case True
      then have "f x \<le> f (last ys)" using yl by (rule order_trans)
      then show ?thesis using True False by simp
    next
      case nle: False
      have "last (insort_key f x (y # ys)) = last (insort_key f x ys)"
        using nle ne by simp
      also have "\<dots> = (if f x \<le> f (last ys) then last ys else x)"
        using Cons.IH Cons.prems(1) False by simp
      finally show ?thesis using False by simp
    qed
  qed
qed

lemma sort_key_split_last:
  "xs \<noteq> [] \<Longrightarrow>
   \<exists>ys zs. xs = ys @ last (sort_key f xs) # zs \<and> (\<forall>z \<in> set zs. f z < f (last (sort_key f xs)))
      \<and> (\<forall>y \<in> set ys. f y \<le> f (last (sort_key f xs)))"
proof (induction xs)
  case Nil then show ?case by simp
next
  case (Cons x xs)
  show ?case
  proof (cases "xs = []")
    case True
    then show ?thesis by (intro exI[of _ "[]"]) simp
  next
    case False
    let ?b = "last (sort_key f xs)"
    from False Cons.IH obtain ys zs where
      d: "xs = ys @ ?b # zs" "\<forall>z \<in> set zs. f z < f ?b" "\<forall>y \<in> set ys. f y \<le> f ?b"
      by blast
    have ne: "sort_key f xs \<noteq> []" using False by (metis length_0_conv length_sort)
    have l: "last (sort_key f (x # xs)) = (if f x \<le> f ?b then ?b else x)"
      using last_insort_key[of f "sort_key f xs" x] ne by simp
    show ?thesis
    proof (cases "f x \<le> f ?b")
      case True
      then have e: "last (sort_key f (x # xs)) = ?b" using l by auto
      have "x # xs = (x # ys) @ ?b # zs" using d(1) by simp
      then show ?thesis using d(2,3) True unfolding e by (metis set_ConsD)
    next
      case nle: False
      then have e: "last (sort_key f (x # xs)) = x" using l by auto
      have "\<forall>z \<in> set xs. f z < f x"
      proof
        fix z assume "z \<in> set xs"
        then have "z \<in> set ys \<or> z = ?b \<or> z \<in> set zs" using d(1) by (metis Un_iff set_ConsD set_append)
        then have "f z \<le> f ?b" using d(2,3) by auto
        then show "f z < f x" using nle by auto
      qed
      then show ?thesis unfolding e by (intro exI[of _ "[]"] exI[of _ xs]) simp
    qed
  qed
qed

text \<open>
  C1. The file the link executor keeps is the last element of the member list sorted
  (stably, ascending) by the pair (length of the file name, length of the full path): it
  is the last member of the list with the greatest key, no member has a longer file
  name, and among the members with a file name of the same length none has a longer
  path.
\<close>

theorem survivor_is_last_of_sorted:
  assumes "files \<noteq> []"
  shows "base_file_of files = last (sort_key fkey files)
     \<and> sort_key fkey files = replaced_of files @ [base_file_of files]
     \<and> (\<exists>ys zs. files = ys @ base_file_of files # zs
           \<and> (\<forall>z \<in> set zs. fkey z < fkey (base_file_of files))
           \<and> (\<forall>y \<in> set ys. fkey y \<le> fkey (base_file_of files)))
     \<and> (\<forall>f \<in> set files.
           length (basename f) \<le> length (basename (base_file_of files))
           \<and> (length (basename f) = length (basename (base_file_of files))
                \<longrightarrow> length f \<le> length (base_file_of files)))"
proof -
  let ?b = "base_file_of files"
  have b: "?b = last (sort_key fkey files)" by (simp add: base_file_of_def)
  have ne: "sort_key fkey files \<noteq> []" using assms by (metis length_0_conv length_sort)
  have s: "sort_key fkey files = replaced_of files @ [?b]"
    unfolding replaced_of_def base_file_of_def using ne by simp
  from sort_key_split_last[OF assms, of fkey] obtain ys zs where
    d: "files = ys @ ?b # zs" "\<forall>z \<in> set zs. fkey z < fkey ?b" "\<forall>y \<in> set ys. fkey y \<le> fkey ?b"
    unfolding b by blast
  have le: "fkey f \<le> fkey ?b" if "f \<in> set files" for f
  proof -
    from that d(1) have "f \<in> set ys \<or> f = ?b \<or> f \<in> set zs"
      by (metis Un_iff set_ConsD set_append)
    then show ?thesis using d(2,3) by auto
  qed
  have "\<forall>f \<in> set files.
           length (basename f) \<le> length (basename ?b)
           \<and> (length (basename f) = length (basename ?b) \<longrightarrow> length f \<le> length ?b)"
  proof
    fix f assume "f \<in> set files"
    from le[OF this] show "length (basename f) \<le> length (basename ?b)
           \<and> (length (basename f) = length (basename ?b) \<longrightarrow> length f \<le> length ?b)"
      by (auto simp: fkey_def less_eq_prod_def)
  qed
  with b s d show ?thesis by blast
qed

theorem survivor_is_last_of_sorted_witness:
  "[''libexample.so.1'', ''libexample.so.1.0'', ''libexample.so''] \<noteq> []
   \<and> base_file_of [''libexample.so.1'', ''libexample.so.1.0'', ''libexample.so''] = ''libexample.so.1.0''
   \<and> length (basename ''libexample.so'')
         \<le> length (basename (base_file_of [''libexample.so.1'', ''libexample.so.1.0'', ''libexample.so'']))"
proof -
  have e: "base_file_of [''libexample.so.1'', ''libexample.so.1.0'', ''libexample.so''] = ''libexample.so.1.0''"
    by code_simp
  show ?thesis
    using survivor_is_last_of_sorted[of "[''libexample.so.1'', ''libexample.so.1.0'', ''libexample.so'']"] e by simp
qed

section \<open>What the calls change\<close>

lemma advances_refl [simp]: "advances P w w"
  unfolding advances_def by (intro conjI exI[of _ "[]"]) simp_all

lemma advances_trans:
  assumes "advances P w w1" "advances P w1 w2"
  shows "advances P w w2"
proof -
  from assms(1) obtain e1 where 1: "env w1 = env w" "next_ino w \<le> next_ino w1"
    "trace w1 = trace w @ e1" "\<forall>e \<in> set e1. P e"
    "\<forall>p. Some p \<notin> target ` set e1 \<longrightarrow> nodes w1 p = nodes w p"
    unfolding advances_def by blast
  from assms(2) obtain e2 where 2: "env w2 = env w1" "next_ino w1 \<le> next_ino w2"
    "trace w2 = trace w1 @ e2" "\<forall>e \<in> set e2. P e"
    "\<forall>p. Some p \<notin> target ` set e2 \<longrightarrow> nodes w2 p = nodes w1 p"
    unfolding advances_def by blast
  have "trace w2 = trace w @ (e1 @ e2)" using 1(3) 2(3) by simp
  moreover have "\<forall>e \<in> set (e1 @ e2). P e" using 1(4) 2(4) by auto
  moreover have "\<forall>p. Some p \<notin> target ` set (e1 @ e2) \<longrightarrow> nodes w2 p = nodes w p"
    using 1(5) 2(5) by (simp add: image_Un)
  ultimately show ?thesis unfolding advances_def using 1(1,2) 2(1,2) by (metis le_trans)
qed

lemma advances_mono:
  assumes "advances P w w'" "\<And>e. P e \<Longrightarrow> Q e"
  shows "advances Q w w'"
  using assms unfolding advances_def by blast

lemma advances_nodes:
  assumes "advances P w w'" "\<And>e. P e \<Longrightarrow> target e \<noteq> Some p"
  shows "nodes w' p = nodes w p"
proof -
  from assms(1) obtain evs where e: "\<forall>e \<in> set evs. P e"
    "\<forall>p. Some p \<notin> target ` set evs \<longrightarrow> nodes w' p = nodes w p"
    unfolding advances_def by blast
  have "Some p \<notin> target ` set evs" using e(1) assms(2) by (metis (mono_tags) image_iff)
  then show ?thesis using e(2) by blast
qed

lemma advances_env: "advances P w w' \<Longrightarrow> env w' = env w"
  unfolding advances_def by blast

lemma advances_call:
  assumes "P e" "env w' = env w" "next_ino w \<le> next_ino w'" "trace w' = trace w @ [e]"
    "\<And>p. target e \<noteq> Some p \<Longrightarrow> nodes w' p = nodes w p"
  shows "advances P w w'"
  unfolding advances_def using assms by (intro conjI exI[of _ "[e]"]) auto

lemma os_unlink_advances:
  "os_unlink p w = (r, w') \<Longrightarrow> P (CallUnlink p) \<Longrightarrow> advances P w w'"
  by (rule advances_call[where e = "CallUnlink p"])
     (auto simp: os_unlink_def record_call_def split: if_splits)

lemma os_link_advances:
  "os_link src dst w = (r, w') \<Longrightarrow> P (CallLink src dst) \<Longrightarrow> advances P w w'"
  by (rule advances_call[where e = "CallLink src dst"])
     (auto simp: os_link_def record_call_def split: if_splits)

lemma os_symlink_advances:
  "os_symlink src dst w = (r, w') \<Longrightarrow> P (CallSymlink src dst) \<Longrightarrow> advances P w w'"
  by (rule advances_call[where e = "CallSymlink src dst"])
     (auto simp: os_symlink_def record_call_def split: if_splits)

lemma shutil_copy2_advances:
  "shutil_copy2 src dst w = (r, w') \<Longrightarrow> P (CallCopy src dst) \<Longrightarrow> advances P w w'"
  by (rule advances_call[where e = "CallCopy src dst"])
     (auto simp: shutil_copy2_def record_call_def split: if_splits option.splits)

lemma record_call_advances: "P e \<Longrightarrow> advances P w (record_call e w)"
  by (rule advances_call[where e = e]) (auto simp: record_call_def)

lemma hash_file_advances:
  "hash_file p w = (r, w') \<Longrightarrow> P (Hashed p) \<Longrightarrow> advances P w w'"
  by (rule advances_call[where e = "Hashed p"])
     (auto simp: hash_file_def record_call_def split: if_splits option.splits)

lemma link_one_advances:
  assumes "link_one link symlink absolute base bs f st w = (r, w')"
    and P: "\<And>e. target e = Some f \<Longrightarrow> P e"
  shows "advances P w w'"
proof -
  note adv = os_unlink_advances[where P = P] os_link_advances[where P = P]
    os_symlink_advances[where P = P] shutil_copy2_advances[where P = P]
  show ?thesis
    using assms(1) unfolding link_one_def
    by (auto split: result.splits bool.splits if_splits prod.splits
        intro!: P dest!: adv intro: advances_trans)
qed

lemma set_setdefault_append_fst:
  "fst ` set (setdefault_append k v m) = insert k (fst ` set m)"
  by (induction k v m rule: setdefault_append.induct) auto

lemma distinct_setdefault_append:
  "distinct (map fst m) \<Longrightarrow> distinct (map fst (setdefault_append k v m))"
proof (induction m)
  case Nil then show ?case by simp
next
  case (Cons a m)
  obtain k' vs where a: "a = (k', vs)" by (cases a)
  show ?case using Cons set_setdefault_append_fst[of k v m] unfolding a
    by (auto simp: image_iff)
qed

lemma setdefault_append_member:
  assumes "(k', vs') \<in> set (setdefault_append k v m)" "distinct (map fst m)"
  shows "(k' \<noteq> k \<and> (k', vs') \<in> set m) \<or>
         (k' = k \<and> ((\<exists>vs. (k, vs) \<in> set m \<and> vs' = vs @ [v]) \<or> (k \<notin> fst ` set m \<and> vs' = [v])))"
  using assms
proof (induction m)
  case Nil then show ?case by simp
next
  case (Cons a m)
  obtain k0 vs0 where a: "a = (k0, vs0)" by (cases a)
  show ?case
  proof (cases "k = k0")
    case True
    with Cons.prems show ?thesis unfolding a by (auto simp: image_iff)
  next
    case False
    with Cons show ?thesis unfolding a by (auto simp: image_iff)
  qed
qed

lemma grouped_step:
  assumes "grouped g ys m"
  shows "grouped g (ys @ [x]) (setdefault_append (g x) x m)"
proof -
  from assms have d: "distinct (map fst m)" and f: "fst ` set m = g ` set ys"
    and v: "\<And>k vs. (k, vs) \<in> set m \<Longrightarrow> vs = filter (\<lambda>x. g x = k) ys"
    unfolding grouped_def by auto
  have "vs' = filter (\<lambda>y. g y = k') (ys @ [x])"
    if "(k', vs') \<in> set (setdefault_append (g x) x m)" for k' vs'
  proof -
    from setdefault_append_member[OF that d]
    consider "k' \<noteq> g x" "(k', vs') \<in> set m"
      | vs where "k' = g x" "(g x, vs) \<in> set m" "vs' = vs @ [x]"
      | "k' = g x" "g x \<notin> fst ` set m" "vs' = [x]" by blast
    then show ?thesis
    proof cases
      case 1 then show ?thesis using v by auto
    next
      case 2 then show ?thesis using v by auto
    next
      case 3
      have "g y \<noteq> g x" if "y \<in> set ys" for y
        using 3(2) that unfolding f by (metis imageI)
      then have "filter (\<lambda>y. g y = g x) ys = []" by (simp add: filter_empty_conv)
      with 3 show ?thesis by simp
    qed
  qed
  then show ?thesis
    unfolding grouped_def using distinct_setdefault_append[OF d]
      set_setdefault_append_fst[of "g x" x m] f by auto
qed

lemma grouped_group_by:
  "grouped g ys m \<Longrightarrow> grouped g (ys @ xs) (group_by g xs m)"
proof (induction xs arbitrary: ys m)
  case Nil then show ?case by simp
next
  case (Cons x xs)
  from Cons.IH[OF grouped_step[OF Cons.prems, of x]] show ?case by simp
qed

lemma grouped_group_by_Nil: "grouped g xs (group_by g xs [])"
  using grouped_group_by[of g "[]" "[]" xs] by (simp add: grouped_def)

lemma stat_fuel_Regular: "nodes w p = Some (Regular d) \<Longrightarrow> stat_fuel n w p = Some d"
  by (cases n) simp_all

lemma os_stat_Regular: "nodes w p = Some (Regular d) \<Longrightarrow> os_stat w p = Some d"
  by (simp add: os_stat_def stat_fuel_Regular)

lemma stat_fuel_None: "nodes w p = None \<Longrightarrow> stat_fuel n w p = None"
  by (cases n) simp_all

lemma regular_iff: "isfile w p \<and> \<not> islink w p \<longleftrightarrow> (\<exists>d. nodes w p = Some (Regular d))"
proof (cases "nodes w p")
  case None
  then show ?thesis by (simp add: isfile_def os_stat_def stat_fuel_None)
next
  case (Some n)
  then show ?thesis
    by (cases n) (auto simp: isfile_def islink_def os_stat_Regular)
qed

lemma stat_fuel_nodes_cong: "nodes w' = nodes w \<Longrightarrow> stat_fuel n w' p = stat_fuel n w p"
  by (induction n arbitrary: p) (auto split: option.splits node.splits)

lemma os_stat_nodes_cong: "nodes w' = nodes w \<Longrightarrow> os_stat w' p = os_stat w p"
  unfolding os_stat_def by (rule stat_fuel_nodes_cong)

lemma record_call_simps [simp]:
  "env (record_call e w) = env w" "nodes (record_call e w) = nodes w"
  "next_ino (record_call e w) = next_ino w" "trace (record_call e w) = trace w @ [e]"
  by (simp_all add: record_call_def)

lemma os_stat_record_call [simp]: "os_stat (record_call e w) p = os_stat w p"
  by (rule os_stat_nodes_cong) (simp add: record_call_def)

lemma scan_step_eq:
  "scan_step w pattern p m =
     Ok (if eligible w pattern p then setdefault_append (size_of w p) p m else m)"
  by (auto simp: scan_step_def eligible_def getsize_def size_of_def isfile_def
      split: option.splits)

lemma scan_loop_eq:
  "scan_loop w pattern xs m = Ok (group_by (size_of w) (filter (eligible w pattern) xs) m)"
  by (induction xs arbitrary: m) (simp_all add: scan_step_eq)

lemma hash_file_eq:
  "hash_file p w =
     ((if hashable w p then Ok (digest_of w p) else Raise IOError), record_call (Hashed p) w)"
  by (auto simp: hash_file_def hashable_def digest_of_def split: option.splits)

lemma hashable_record_call [simp]: "hashable (record_call e w) p = hashable w p"
  by (simp add: hashable_def)

lemma digest_of_record_call [simp]: "digest_of (record_call e w) = digest_of w"
  by (rule ext) (simp add: digest_of_def split: option.splits)

lemma hash_all_result:
  assumes "hash_all fps m w = (r, w')"
  shows "env w' = env w \<and> nodes w' = nodes w \<and> next_ino w' = next_ino w
     \<and> (\<exists>k \<le> length fps. trace w' = trace w @ map Hashed (take k fps))
     \<and> r = (if \<forall>p \<in> set fps. hashable w p then Ok (group_by (digest_of w) fps m)
            else Raise IOError)"
  using assms
proof (induction fps arbitrary: m w)
  case Nil
  then show ?case by simp
next
  case (Cons p fps)
  show ?case
  proof (cases "hashable w p")
    case False
    with Cons.prems have rw: "r = Raise IOError" "w' = record_call (Hashed p) w"
      by (simp_all add: hash_file_eq)
    have "trace w' = trace w @ map Hashed (take 1 (p # fps))" using rw(2) by simp
    moreover have "(1::nat) \<le> length (p # fps)" by simp
    ultimately have "\<exists>k \<le> length (p # fps). trace w' = trace w @ map Hashed (take k (p # fps))"
      by blast
    then show ?thesis using False rw by simp
  next
    case True
    with Cons.prems have "hash_all fps (setdefault_append (digest_of w p) p m)
        (record_call (Hashed p) w) = (r, w')"
      by (simp add: hash_file_eq)
    from Cons.IH[OF this] have ih: "env w' = env w" "nodes w' = nodes w"
        "next_ino w' = next_ino w"
        "\<exists>k \<le> length fps. trace w' = trace w @ Hashed p # map Hashed (take k fps)"
        "r = (if \<forall>p \<in> set fps. hashable w p
              then Ok (group_by (digest_of w) fps (setdefault_append (digest_of w p) p m))
              else Raise IOError)"
      by simp_all
    note rest = ih(1,2,3,5)
    from ih(4) obtain k where k: "k \<le> length fps"
      "trace w' = trace w @ Hashed p # map Hashed (take k fps)" by blast
    have "trace w' = trace w @ map Hashed (take (Suc k) (p # fps))" using k(2) by simp
    moreover have "Suc k \<le> length (p # fps)" using k(1) by simp
    ultimately have "\<exists>k \<le> length (p # fps). trace w' = trace w @ map Hashed (take k (p # fps))"
      by blast
    then show ?thesis using rest True by simp
  qed
qed

lemma check_same_result:
  assumes "check_same fps w = (r, w')"
  shows "env w' = env w \<and> nodes w' = nodes w \<and> next_ino w' = next_ino w
     \<and> (\<exists>k \<le> length fps. trace w' = trace w @ map Hashed (take k fps))
     \<and> r = (if \<forall>p \<in> set fps. hashable w p then Ok (hash_groups w fps) else Raise IOError)"
proof -
  obtain r0 w0 where h: "hash_all fps [] w = (r0, w0)" by (cases "hash_all fps [] w")
  note hr = hash_all_result[OF h]
  show ?thesis
  proof (cases "\<forall>p \<in> set fps. hashable w p")
    case True
    with hr have "r0 = Ok (group_by (digest_of w) fps [])" by simp
    with assms h have "r = Ok (hash_groups w fps)" "w' = w0"
      by (simp_all add: check_same_def hash_groups_def)
    with hr True show ?thesis by simp
  next
    case False
    with hr have "r0 = Raise IOError" by simp
    with assms h have "r = Raise IOError" "w' = w0" by (simp_all add: check_same_def)
    with hr False show ?thesis by simp
  qed
qed

lemma check_same_advances:
  assumes "check_same fps w = (r, w')" and P: "\<And>p. p \<in> set fps \<Longrightarrow> P (Hashed p)"
  shows "advances P w w'"
proof -
  from check_same_result[OF assms(1)] obtain k where
    k: "env w' = env w" "nodes w' = nodes w" "next_ino w' = next_ino w"
    "trace w' = trace w @ map Hashed (take k fps)" by blast
  have "\<forall>e \<in> set (map Hashed (take k fps)). P e"
    using P by (auto dest: in_set_takeD)
  then show ?thesis unfolding advances_def using k by (intro conjI exI[of _ "map Hashed (take k fps)"]) auto
qed

lemma link_loop_advances:
  assumes "link_loop link symlink absolute base bs fs st w = (r, w')"
    and P: "\<And>e f. f \<in> set fs \<Longrightarrow> target e = Some f \<Longrightarrow> P e"
  shows "advances P w w'"
  using assms
proof (induction fs arbitrary: st w)
  case Nil
  then show ?case by simp
next
  case (Cons f fs)
  obtain r1 w1 where o: "link_one link symlink absolute base bs f st w = (r1, w1)"
    by (cases "link_one link symlink absolute base bs f st w")
  have a1: "advances P w w1"
  proof (rule link_one_advances[OF o])
    fix e assume "target e = Some f"
    then show "P e" using Cons.prems(2)[of f e] by simp
  qed
  show ?case
  proof (cases r1)
    case (Raise e)
    with Cons.prems(1) o have "w' = w1" by simp
    with a1 show ?thesis by simp
  next
    case (Ok st1)
    with Cons.prems(1) o have ll: "link_loop link symlink absolute base bs fs st1 w1 = (r, w')"
      by simp
    have "advances P w1 w'"
    proof (rule Cons.IH[OF ll])
      fix e f' assume "f' \<in> set fs" "target e = Some f'"
      then show "P e" using Cons.prems(2)[of f' e] by simp
    qed
    with a1 show ?thesis by (rule advances_trans)
  qed
qed

lemma link_files_advances:
  assumes "link_files files link symlink absolute w = (r, w')"
    and H: "P (Handed files)"
    and P: "\<And>e f. f \<in> set (replaced_of files) \<Longrightarrow> target e = Some f \<Longrightarrow> P e"
  shows "advances P w w'"
proof -
  let ?w = "record_call (Handed files) w"
  have a0: "advances P w ?w" by (rule record_call_advances) (rule H)
  show ?thesis
  proof (cases "files = [] \<or> (\<exists>e. getsize ?w (base_file_of files) = Raise e)")
    case True
    with assms(1) have "w' = ?w"
      by (auto simp: link_files_def Let_def split: if_splits)
    with a0 show ?thesis by simp
  next
    case False
    then obtain n where n: "getsize ?w (base_file_of files) = Ok n" and ne: "files \<noteq> []"
      by (cases "getsize ?w (base_file_of files)") auto
    with assms(1) have "link_loop link symlink absolute (base_file_of files) n
        (replaced_of files) (0, 0) ?w = (r, w')"
      by (simp add: link_files_def Let_def)
    from link_loop_advances[OF this] P have "advances P ?w w'" by blast
    with a0 show ?thesis by (rule advances_trans)
  qed
qed

lemma link_lists_advances:
  assumes "link_lists link symlink absolute fls st w = (r, w')"
    and H: "\<And>files. files \<in> set fls \<Longrightarrow> P (Handed files)"
    and P: "\<And>e f files. files \<in> set fls \<Longrightarrow> f \<in> set (replaced_of files) \<Longrightarrow>
              target e = Some f \<Longrightarrow> P e"
  shows "advances P w w'"
  using assms
proof (induction fls arbitrary: st w)
  case Nil
  then show ?case by simp
next
  case (Cons files fls)
  obtain r1 w1 where o: "link_files files link symlink absolute w = (r1, w1)"
    by (cases "link_files files link symlink absolute w")
  have a1: "advances P w w1"
  proof (rule link_files_advances[OF o])
    show "P (Handed files)" using Cons.prems(2)[of files] by simp
  next
    fix e f assume "f \<in> set (replaced_of files)" "target e = Some f"
    then show "P e" using Cons.prems(3)[of files f e] by simp
  qed
  show ?case
  proof (cases r1)
    case (Raise e)
    with Cons.prems(1) o have "w' = w1" by simp
    with a1 show ?thesis by simp
  next
    case (Ok ls)
    with Cons.prems(1) o have ll:
      "link_lists link symlink absolute fls (fst st + fst ls, snd st + snd ls) w1 = (r, w')"
      by simp
    have "advances P w1 w'"
    proof (rule Cons.IH[OF ll])
      fix files' assume "files' \<in> set fls"
      then show "P (Handed files')" using Cons.prems(2)[of files'] by simp
    next
      fix e f files' assume "files' \<in> set fls" "f \<in> set (replaced_of files')" "target e = Some f"
      then show "P e" using Cons.prems(3)[of files' f e] by simp
    qed
    with a1 show ?thesis by (rule advances_trans)
  qed
qed

end
